theory Spec2Isabelle
  imports Complex_Main
begin

section \<open>Reaction-order selection from time/concentration series\<close>

text \<open>
  The program (\<^verbatim>\<open>py_rate_order.py\<close>) linearises a concentration series for each
  candidate reaction order 0, 1 and 2, fits a straight line against time and keeps the
  order with the highest coefficient of determination.  Numbers are modelled as
  mathematical reals: the development is about the arithmetic the program denotes, not
  about rounding.  The one value of the program that is not a number, the undefined
  correlation of a response without spread, is modelled as an absent value.
\<close>

subsection \<open>Errors\<close>

text \<open>
  Every \<^verbatim>\<open>raise\<close> of the source is a \<^verbatim>\<open>ValueError\<close> carrying a message.  The
  regression routine has two further ways to fail: a series without spread in time
  (\<open>DegenerateFitError\<close>) and a pair of series it cannot pair up at all
  (\<open>MalformedSeriesError\<close>: empty, or of different lengths).
\<close>

datatype error = ValueError string | DegenerateFitError | MalformedSeriesError

text \<open>The names the specification gives to the four messages of the source.\<close>

definition InvalidInputError_ln :: error where
  "InvalidInputError_ln = ValueError ''All concentration values must be positive for ln[A].''"

definition InvalidInputError_recip :: error where
  "InvalidInputError_recip = ValueError ''All concentration values must be positive for 1/[A].''"

definition InvalidOrderError :: error where
  "InvalidOrderError = ValueError ''Order must be 0, 1, or 2.''"

definition NoValidFitError :: error where
  "NoValidFitError = ValueError ''Unable to fit any reaction order with the provided data.''"

definition is_InvalidInputError :: "error \<Rightarrow> bool" where
  "is_InvalidInputError e = (e = InvalidInputError_ln \<or> e = InvalidInputError_recip)"

subsection \<open>The transformer\<close>

text \<open>
  \<^verbatim>\<open>transform_data(time, concentration, order)\<close> returns the tuple
  \<^verbatim>\<open>(time, y, ylabel, sign_factor)\<close>.  \<^verbatim>\<open>np.any(concentration <= 0)\<close> is the
  existence of a non-positive entry; \<^verbatim>\<open>np.log\<close> and \<^verbatim>\<open>1 / concentration\<close> act
  elementwise and are only reached when every entry is positive.
\<close>

type_synonym transformed = "real list \<times> real list \<times> string \<times> int"

definition transform_data :: "real list \<Rightarrow> real list \<Rightarrow> int \<Rightarrow> error + transformed" where
  "transform_data time concentration order =
     (if order = 0 then
        Inr (time, concentration, ''[A] (M)'', - 1)
      else if order = 1 then
        (if list_ex (\<lambda>c. c \<le> 0) concentration then
           Inl (ValueError ''All concentration values must be positive for ln[A].'')
         else Inr (time, map ln concentration, ''ln[A]'', - 1))
      else if order = 2 then
        (if list_ex (\<lambda>c. c \<le> 0) concentration then
           Inl (ValueError ''All concentration values must be positive for 1/[A].'')
         else Inr (time, map (\<lambda>c. 1 / c) concentration, ''1/[A] (1/M)'', 1))
      else Inl (ValueError ''Order must be 0, 1, or 2.''))"

subsection \<open>The regression primitive\<close>

definition mean :: "real list \<Rightarrow> real" where
  "mean xs = sum_list xs / real (length xs)"

definition deviations :: "real list \<Rightarrow> real list" where
  "deviations xs = map (\<lambda>x. x - mean xs) xs"

definition sum_products :: "real list \<Rightarrow> real list \<Rightarrow> real" where
  "sum_products t y = sum_list (map2 (*) (deviations t) (deviations y))"

definition sum_squares :: "real list \<Rightarrow> real" where
  "sum_squares t = sum_list (map (\<lambda>d. d\<^sup>2) (deviations t))"

definition covariance :: "real list \<Rightarrow> real list \<Rightarrow> real" where
  "covariance t y = sum_products t y / real (length t)"

definition stdev :: "real list \<Rightarrow> real" where
  "stdev t = sqrt (sum_squares t / real (length t))"

definition all_identical :: "real list \<Rightarrow> bool" where
  "all_identical t = list_all (\<lambda>x. x = hd t) t"

text \<open>
  Modelled from the spec: \<^verbatim>\<open>scipy.stats.linregress\<close>, which the selector calls, is a
  library routine and not part of the repository's sources.  The model is the regression
  primitive of section 4.2 of the specification: the slope is the sum of the products of
  the deviations of \<open>t\<close> and \<open>y\<close> from their means over the sum of the squared deviations
  of \<open>t\<close>, the intercept is \<open>mean y - slope * mean t\<close>, the correlation is
  \<open>covariance(t, y) / (stdev(t) * stdev(y))\<close>, and failure with \<open>DegenerateFitError\<close>
  when all time values are identical.  Series that are empty or differ in length are
  outside the primitive's contract and are rejected.  For a response without spread
  (\<open>stdev(y) = 0\<close>) the quotient that defines the correlation is \<open>0 / 0\<close>: the specification
  gives it no value, and the routine returns a NaN.  The correlation is therefore optional,
  \<open>None\<close> standing for the undefined value.  The result is \<open>(slope, intercept, r_value)\<close>;
  the two further components of the library's result are discarded by the caller and left
  out.
\<close>

definition linregress ::
  "real list \<Rightarrow> real list \<Rightarrow> error + (real \<times> real \<times> real option)" where
  "linregress t y =
     (if t = [] then Inl MalformedSeriesError
      else if length t \<noteq> length y then Inl MalformedSeriesError
      else if all_identical t then Inl DegenerateFitError
      else
        let slope = sum_products t y / sum_squares t;
            intercept = mean y - slope * mean t;
            r_value = (if stdev t * stdev y = 0 then None
                       else Some (covariance t y / (stdev t * stdev y)))
        in Inr (slope, intercept, r_value))"

subsection \<open>The selector\<close>

text \<open>
  \<^verbatim>\<open>best_r2\<close> starts at \<^verbatim>\<open>-np.inf\<close>, below every real number; \<^verbatim>\<open>r2 > best_r2\<close> is
  \<open>exceeds\<close> when \<^verbatim>\<open>r2\<close> is a number.  When \<^verbatim>\<open>r2\<close> is undefined the comparison is
  false, as every comparison with a NaN is, and the order is not recorded.
\<close>

datatype score = NegInf | Score real

fun exceeds :: "real \<Rightarrow> score \<Rightarrow> bool" where
  "exceeds r NegInf = True"
| "exceeds r (Score b) = (r > b)"

type_synonym details = "real \<times> real \<times> real list \<times> string \<times> int"

record best =
  best_order :: "int option"
  best_r2 :: score
  best_details :: "details option"

definition initial_best :: best where
  "initial_best = \<lparr>best_order = None, best_r2 = NegInf, best_details = None\<rparr>"

text \<open>
  The part of the \<^verbatim>\<open>try\<close> block that can raise: transform, regress, square the
  correlation (the square of an undefined correlation is undefined).  The regression
  routine is a parameter, so that what the loop does with the scores can be stated for any
  regression.
\<close>

type_synonym regression =
  "real list \<Rightarrow> real list \<Rightarrow> error + (real \<times> real \<times> real option)"

definition attempt ::
  "regression \<Rightarrow> real list \<Rightarrow> real list \<Rightarrow> int \<Rightarrow> error + (real option \<times> details)" where
  "attempt lr time concentration order =
     (case transform_data time concentration order of
        Inl e \<Rightarrow> Inl e
      | Inr (t, y, ylabel, sign_factor) \<Rightarrow>
          (case lr t y of
             Inl e \<Rightarrow> Inl e
           | Inr (slope, intercept, r_value) \<Rightarrow>
               Inr (map_option (\<lambda>r. r\<^sup>2) r_value,
                    (slope, intercept, y, ylabel, sign_factor))))"

text \<open>One iteration of the loop: \<^verbatim>\<open>except Exception: continue\<close> leaves the state as it is.\<close>

definition try_order :: "regression \<Rightarrow> real list \<Rightarrow> real list \<Rightarrow> best \<Rightarrow> int \<Rightarrow> best" where
  "try_order lr time concentration st order =
     (case attempt lr time concentration order of
        Inl e \<Rightarrow> st
      | Inr (r2, d) \<Rightarrow>
          (case r2 of
             None \<Rightarrow> st
           | Some v \<Rightarrow>
               if exceeds v (best_r2 st) then
                 \<lparr>best_order = Some order, best_r2 = Score v, best_details = Some d\<rparr>
               else st))"

definition orders :: "int list" where
  "orders = [0, 1, 2]"

definition determine_best_order_with ::
  "regression \<Rightarrow> real list \<Rightarrow> real list \<Rightarrow> error + (int \<times> score \<times> details option)" where
  "determine_best_order_with lr time concentration =
     (let st = foldl (try_order lr time concentration) initial_best orders in
      case best_order st of
        None \<Rightarrow> Inl (ValueError ''Unable to fit any reaction order with the provided data.'')
      | Some b \<Rightarrow> Inr (b, best_r2 st, best_details st))"

definition determine_best_order ::
  "real list \<Rightarrow> real list \<Rightarrow> error + (int \<times> score \<times> details option)" where
  "determine_best_order = determine_best_order_with linregress"

text \<open>\<^verbatim>\<open>rate_constant = sign_factor * slope\<close>, as the reporting step computes it.\<close>

definition rate_constant :: "int \<Rightarrow> real \<Rightarrow> real" where
  "rate_constant sign_factor slope = real_of_int sign_factor * slope"

subsection \<open>The loop invariant of the selector\<close>

text \<open>
  After the orders in \<open>seen\<close> have been tried, either nothing is recorded and none of them
  produced a fit, or the recorded order is the first of them that reaches the highest
  score among those that produced one.
\<close>

definition loop_invariant :: "regression \<Rightarrow> real list \<Rightarrow> real list \<Rightarrow> int list \<Rightarrow> best \<Rightarrow> bool" where
  "loop_invariant lr time concentration seen st =
     (case best_order st of
        None \<Rightarrow> st = initial_best \<and>
                (\<forall>j\<in>set seen. \<forall>r d. attempt lr time concentration j \<noteq> Inr (Some r, d))
      | Some b \<Rightarrow>
          (\<exists>r d. best_r2 st = Score r \<and> best_details st = Some d \<and>
                 attempt lr time concentration b = Inr (Some r, d) \<and> b \<in> set seen \<and>
                 (\<forall>j\<in>set seen. \<forall>r' d'. attempt lr time concentration j = Inr (Some r', d') \<longrightarrow>
                     r' \<le> r \<and> (r' = r \<longrightarrow> b \<le> j))))"

subsection \<open>The closed form of ordinary least squares\<close>

text \<open>
  The formulas of the specification, written as sums over the sample index:
  \<open>slope = \<Sum>(t\<^sub>i - mean t)(y\<^sub>i - mean y) / \<Sum>(t\<^sub>i - mean t)\<^sup>2\<close> and
  \<open>intercept = mean y - slope * mean t\<close>.
\<close>

definition spec_mean :: "real list \<Rightarrow> real" where
  "spec_mean xs = (\<Sum>i<length xs. xs ! i) / real (length xs)"

definition spec_slope :: "real list \<Rightarrow> real list \<Rightarrow> real" where
  "spec_slope t y =
     (\<Sum>i<length t. (t ! i - spec_mean t) * (y ! i - spec_mean y))
       / (\<Sum>i<length t. (t ! i - spec_mean t)\<^sup>2)"

definition spec_intercept :: "real list \<Rightarrow> real list \<Rightarrow> real" where
  "spec_intercept t y = spec_mean y - spec_slope t y * spec_mean t"

section \<open>The regression primitive: auxiliary facts\<close>

lemma four_times_product_le: fixes p q :: real shows "4 * (p * q) \<le> (p + q)\<^sup>2"
proof -
  have "0 \<le> (p - q)\<^sup>2" by simp
  also have "(p - q)\<^sup>2 = (p + q)\<^sup>2 - 4 * (p * q)"
    by (simp add: power2_eq_square algebra_simps)
  finally show ?thesis by simp
qed

lemma cross_term_bound:
  fixes x y S A B :: real
  assumes "S\<^sup>2 \<le> A * B" "0 \<le> A" "0 \<le> B"
  shows "2 * (x * y * S) \<le> x\<^sup>2 * B + y\<^sup>2 * A"
proof -
  define p where "p = x\<^sup>2 * B"
  define q where "q = y\<^sup>2 * A"
  have pq: "0 \<le> p + q" using assms by (simp add: p_def q_def)
  have "(x * y * S)\<^sup>2 = x\<^sup>2 * y\<^sup>2 * S\<^sup>2" by (simp add: power_mult_distrib)
  also have "\<dots> \<le> x\<^sup>2 * y\<^sup>2 * (A * B)"
    using assms(1) by (intro mult_left_mono) simp_all
  also have "\<dots> = p * q" by (simp add: p_def q_def)
  finally have "4 * (x * y * S)\<^sup>2 \<le> 4 * (p * q)" by simp
  also have "\<dots> \<le> (p + q)\<^sup>2" by (rule four_times_product_le)
  finally have "(2 * (x * y * S))\<^sup>2 \<le> (p + q)\<^sup>2" by (simp add: power_mult_distrib)
  then have "2 * (x * y * S) \<le> p + q" using pq by (rule power2_le_imp_le)
  then show ?thesis by (simp add: p_def q_def)
qed

lemma sum_list_squares_nonneg: "0 \<le> sum_list (map (\<lambda>d. d\<^sup>2) (xs :: real list))"
  by (induction xs) simp_all

lemma cauchy_schwarz_list:
  fixes a b :: "real list"
  shows "(sum_list (map2 (*) a b))\<^sup>2
           \<le> sum_list (map (\<lambda>d. d\<^sup>2) a) * sum_list (map (\<lambda>d. d\<^sup>2) b)"
proof (induction a b rule: list_induct2')
  case 1 show ?case by simp
next
  case (2 x xs) show ?case by simp
next
  case (3 y ys) show ?case by simp
next
  case (4 x xs y ys)
  define S where "S = sum_list (map2 (*) xs ys)"
  define A where "A = sum_list (map (\<lambda>d. d\<^sup>2) xs)"
  define B where "B = sum_list (map (\<lambda>d. d\<^sup>2) ys)"
  have nn: "0 \<le> A" "0 \<le> B" unfolding A_def B_def by (rule sum_list_squares_nonneg)+
  have ih: "S\<^sup>2 \<le> A * B" using 4 by (simp add: S_def A_def B_def)
  have cross: "2 * (x * y * S) \<le> x\<^sup>2 * B + y\<^sup>2 * A"
    using ih nn by (rule cross_term_bound)
  have "(x * y + S)\<^sup>2 = x\<^sup>2 * y\<^sup>2 + 2 * (x * y * S) + S\<^sup>2"
    by (simp add: power2_sum power_mult_distrib)
  also have "\<dots> \<le> x\<^sup>2 * y\<^sup>2 + (x\<^sup>2 * B + y\<^sup>2 * A) + A * B"
    using cross ih by simp
  also have "\<dots> = (x\<^sup>2 + A) * (y\<^sup>2 + B)" by (simp add: algebra_simps)
  finally show ?case by (simp add: S_def A_def B_def)
qed

lemma sum_squares_nonneg: "0 \<le> sum_squares t"
  unfolding sum_squares_def by (rule sum_list_squares_nonneg)

lemma sum_products_squared_le:
  "(sum_products t y)\<^sup>2 \<le> sum_squares t * sum_squares y"
  unfolding sum_products_def sum_squares_def by (rule cauchy_schwarz_list)

lemma correlation_squared_le_one:
  assumes "length t = length y" "stdev t * stdev y \<noteq> 0"
  shows "(covariance t y / (stdev t * stdev y))\<^sup>2 \<le> 1"
proof -
  define n where "n = real (length t)"
  define vt where "vt = sum_squares t / n"
  define vy where "vy = sum_squares y / n"
  have n: "0 \<le> n" by (simp add: n_def)
  have vt: "0 \<le> vt" and vy: "0 \<le> vy"
    using n by (simp_all add: vt_def vy_def sum_squares_nonneg)
  have sd: "(stdev t * stdev y)\<^sup>2 = vt * vy"
    using vt vy assms(1) by (simp add: stdev_def vt_def vy_def n_def power_mult_distrib)
  have pos: "0 < vt * vy"
  proof -
    have "(stdev t * stdev y)\<^sup>2 \<noteq> 0" using assms(2) by simp
    then have "vt * vy \<noteq> 0" using sd by simp
    moreover have "0 \<le> vt * vy" using vt vy by simp
    ultimately show ?thesis by (auto simp only: less_le)
  qed
  have "(covariance t y)\<^sup>2 = (sum_products t y)\<^sup>2 / n\<^sup>2"
    by (simp add: covariance_def n_def power_divide)
  also have "\<dots> \<le> (sum_squares t * sum_squares y) / n\<^sup>2"
    by (intro divide_right_mono sum_products_squared_le) simp
  also have "\<dots> = vt * vy" by (simp add: vt_def vy_def power2_eq_square)
  finally have "(covariance t y)\<^sup>2 \<le> vt * vy" .
  then have "(covariance t y)\<^sup>2 / (vt * vy) \<le> 1" using pos by simp
  then show ?thesis by (simp add: power_divide sd)
qed

lemma linregress_r_squared_bounds:
  assumes "linregress t y = Inr (slope, intercept, Some r)"
  shows "0 \<le> r\<^sup>2 \<and> r\<^sup>2 \<le> 1"
proof -
  from assms have len: "length t = length y"
    and spread: "stdev t * stdev y \<noteq> 0"
    and r: "r = covariance t y / (stdev t * stdev y)"
    by (auto simp: linregress_def Let_def split: if_splits)
  show ?thesis using correlation_squared_le_one [OF len spread] by (simp add: r)
qed

lemma all_identical_iff: "all_identical t = (\<forall>x\<in>set t. x = hd t)"
  by (simp add: all_identical_def list_all_iff)

lemma distinct_values_not_identical:
  "a \<in> set t \<Longrightarrow> b \<in> set t \<Longrightarrow> a \<noteq> b \<Longrightarrow> \<not> all_identical t"
  unfolding all_identical_iff by metis

lemma constant_series_identical: "\<forall>x\<in>set t. x = v \<Longrightarrow> all_identical t"
  by (cases t) (auto simp: all_identical_iff)

lemma sum_squares_zero_identical:
  assumes "sum_squares t = 0"
  shows "all_identical t"
proof -
  have "\<forall>d\<in>set (map (\<lambda>d. d\<^sup>2) (deviations t)). d = 0"
    using assms unfolding sum_squares_def
    by (subst (asm) sum_list_nonneg_eq_0_iff) auto
  then have "\<forall>x\<in>set t. x = mean t" by (auto simp: deviations_def)
  then show ?thesis by (rule constant_series_identical)
qed

lemma sum_squares_pos:
  assumes "\<not> all_identical t"
  shows "0 < sum_squares t"
proof -
  have "0 \<noteq> sum_squares t" using assms sum_squares_zero_identical [of t] by auto
  then show ?thesis using sum_squares_nonneg by (rule order.not_eq_order_implies_strict)
qed

lemma stdev_product_squared:
  assumes "length t = length y"
  shows "(stdev t * stdev y)\<^sup>2 = sum_squares t * sum_squares y / (real (length t))\<^sup>2"
proof -
  have "0 \<le> sum_squares t / real (length t)" "0 \<le> sum_squares y / real (length y)"
    by (simp_all add: sum_squares_nonneg)
  then have "(stdev t * stdev y)\<^sup>2
               = sum_squares t / real (length t) * (sum_squares y / real (length y))"
    by (simp add: stdev_def power_mult_distrib)
  also have "\<dots> = sum_squares t * sum_squares y / (real (length t))\<^sup>2"
    using assms by (simp add: power2_eq_square)
  finally show ?thesis .
qed

lemma correlation_squared:
  assumes "length t = length y" "t \<noteq> []"
  shows "(covariance t y / (stdev t * stdev y))\<^sup>2
           = (sum_products t y)\<^sup>2 / (sum_squares t * sum_squares y)"
proof -
  have n: "(real (length t))\<^sup>2 \<noteq> 0" using assms(2) by simp
  have "(covariance t y / (stdev t * stdev y))\<^sup>2
          = (covariance t y)\<^sup>2 / (stdev t * stdev y)\<^sup>2"
    by (rule power_divide)
  also have "\<dots> = ((sum_products t y)\<^sup>2 / (real (length t))\<^sup>2)
              / (sum_squares t * sum_squares y / (real (length t))\<^sup>2)"
    by (simp only: stdev_product_squared [OF assms(1)] covariance_def power_divide)
  also have "\<dots> = (sum_products t y)\<^sup>2 / (sum_squares t * sum_squares y)"
    using n by simp
  finally show ?thesis .
qed

lemma linregress_success:
  assumes "t \<noteq> []" "length t = length y" "\<not> all_identical t"
  shows "\<exists>r. linregress t y
               = Inr (sum_products t y / sum_squares t,
                      mean y - sum_products t y / sum_squares t * mean t, r)"
  using assms by (simp add: linregress_def Let_def)

lemma stdev_product_nonzero:
  assumes "length t = length y" "\<not> all_identical t" "\<not> all_identical y"
  shows "stdev t * stdev y \<noteq> 0"
proof
  assume "stdev t * stdev y = 0"
  then have "(stdev t * stdev y)\<^sup>2 = 0" by simp
  moreover have "t \<noteq> []" using assms(2) by (auto simp: all_identical_def)
  ultimately have "sum_squares t * sum_squares y = 0"
    by (simp add: stdev_product_squared [OF assms(1)])
  then show False using sum_squares_pos [OF assms(2)] sum_squares_pos [OF assms(3)] by simp
qed

lemma linregress_scored:
  assumes "length t = length y" "\<not> all_identical t" "\<not> all_identical y"
  shows "\<exists>r. linregress t y
               = Inr (sum_products t y / sum_squares t,
                      mean y - sum_products t y / sum_squares t * mean t, Some r)
             \<and> r\<^sup>2 = (sum_products t y)\<^sup>2 / (sum_squares t * sum_squares y)"
proof -
  have ne: "t \<noteq> []" using assms(2) by (auto simp: all_identical_def)
  have "stdev t * stdev y \<noteq> 0" using assms by (rule stdev_product_nonzero)
  then show ?thesis using assms ne correlation_squared [OF assms(1) ne]
    by (simp add: linregress_def Let_def)
qed

lemma linregress_degenerate:
  assumes "t \<noteq> []" "length t = length y" "all_identical t"
  shows "linregress t y = Inl DegenerateFitError"
  using assms by (simp add: linregress_def)

section \<open>The selector: auxiliary facts\<close>

lemma loop_invariant_initial: "loop_invariant lr t c [] initial_best"
  by (simp add: loop_invariant_def initial_best_def)

lemma try_order_failed:
  "attempt lr t c ord = Inl e \<Longrightarrow> try_order lr t c st ord = st"
  by (simp add: try_order_def)

lemma try_order_undefined:
  "attempt lr t c ord = Inr (None, d) \<Longrightarrow> try_order lr t c st ord = st"
  by (simp add: try_order_def)

lemma try_order_improves:
  "attempt lr t c ord = Inr (Some r2, d) \<Longrightarrow> exceeds r2 (best_r2 st) \<Longrightarrow>
   try_order lr t c st ord = \<lparr>best_order = Some ord, best_r2 = Score r2, best_details = Some d\<rparr>"
  by (simp add: try_order_def)

lemma try_order_keeps:
  "attempt lr t c ord = Inr (Some r2, d) \<Longrightarrow> \<not> exceeds r2 (best_r2 st) \<Longrightarrow>
   try_order lr t c st ord = st"
  by (simp add: try_order_def)

lemma loop_invariant_none:
  "best_order st = None \<Longrightarrow>
   loop_invariant lr t c seen st =
     (st = initial_best \<and> (\<forall>j\<in>set seen. \<forall>r d. attempt lr t c j \<noteq> Inr (Some r, d)))"
  by (simp add: loop_invariant_def)

lemma loop_invariant_some:
  "best_order st = Some b \<Longrightarrow>
   loop_invariant lr t c seen st =
     (\<exists>r d. best_r2 st = Score r \<and> best_details st = Some d \<and>
            attempt lr t c b = Inr (Some r, d) \<and> b \<in> set seen \<and>
            (\<forall>j\<in>set seen. \<forall>r' d'. attempt lr t c j = Inr (Some r', d') \<longrightarrow>
                r' \<le> r \<and> (r' = r \<longrightarrow> b \<le> j)))"
  by (simp add: loop_invariant_def)

lemma loop_invariant_skip:
  assumes inv: "loop_invariant lr t c seen st"
    and att: "\<forall>r d. attempt lr t c ord \<noteq> Inr (Some r, d)"
  shows "loop_invariant lr t c (seen @ [ord]) st"
proof (cases "best_order st")
  case None
  then show ?thesis using inv att by (simp add: loop_invariant_none)
next
  case (Some b)
  from inv obtain r d where h: "best_r2 st = Score r" "best_details st = Some d"
      "attempt lr t c b = Inr (Some r, d)" "b \<in> set seen"
      "\<forall>j\<in>set seen. \<forall>r' d'. attempt lr t c j = Inr (Some r', d') \<longrightarrow> r' \<le> r \<and> (r' = r \<longrightarrow> b \<le> j)"
    unfolding loop_invariant_some [OF Some] by blast
  have "\<forall>j\<in>set (seen @ [ord]). \<forall>r' d'. attempt lr t c j = Inr (Some r', d') \<longrightarrow>
          r' \<le> r \<and> (r' = r \<longrightarrow> b \<le> j)"
    using h(5) att by simp
  then show ?thesis unfolding loop_invariant_some [OF Some] using h(1-4) by simp
qed

lemma loop_invariant_replace:
  assumes inv: "loop_invariant lr t c seen st" and att: "attempt lr t c ord = Inr (Some r2, d)"
    and better: "exceeds r2 (best_r2 st)"
  shows "loop_invariant lr t c (seen @ [ord])
           \<lparr>best_order = Some ord, best_r2 = Score r2, best_details = Some d\<rparr>"
proof -
  have below: "\<forall>j\<in>set seen. \<forall>r' d'. attempt lr t c j = Inr (Some r', d') \<longrightarrow> r' < r2"
  proof (cases "best_order st")
    case None
    then show ?thesis using inv by (simp add: loop_invariant_none)
  next
    case (Some b)
    from inv obtain r where h: "best_r2 st = Score r"
        "\<forall>j\<in>set seen. \<forall>r' d'. attempt lr t c j = Inr (Some r', d') \<longrightarrow> r' \<le> r \<and> (r' = r \<longrightarrow> b \<le> j)"
      unfolding loop_invariant_some [OF Some] by blast
    have "r < r2" using better h(1) by simp
    then show ?thesis using h(2) by fastforce
  qed
  have "\<forall>j\<in>set (seen @ [ord]). \<forall>r' d'. attempt lr t c j = Inr (Some r', d') \<longrightarrow>
          r' \<le> r2 \<and> (r' = r2 \<longrightarrow> ord \<le> j)"
    using below att by fastforce
  then show ?thesis using att by (simp add: loop_invariant_def)
qed

lemma loop_invariant_keep:
  assumes inv: "loop_invariant lr t c seen st" and att: "attempt lr t c ord = Inr (Some r2, d)"
    and worse: "\<not> exceeds r2 (best_r2 st)" and later: "\<forall>x\<in>set seen. x \<le> ord"
  shows "loop_invariant lr t c (seen @ [ord]) st"
proof (cases "best_order st")
  case None
  then have "best_r2 st = NegInf" using inv by (simp add: loop_invariant_none initial_best_def)
  then show ?thesis using worse by simp
next
  case (Some b)
  from inv obtain r d' where h: "best_r2 st = Score r" "best_details st = Some d'"
      "attempt lr t c b = Inr (Some r, d')" "b \<in> set seen"
      "\<forall>j\<in>set seen. \<forall>r' d'. attempt lr t c j = Inr (Some r', d') \<longrightarrow> r' \<le> r \<and> (r' = r \<longrightarrow> b \<le> j)"
    unfolding loop_invariant_some [OF Some] by blast
  have le: "r2 \<le> r" using worse h(1) by simp
  have "b \<le> ord" using later h(4) by blast
  then have "\<forall>j\<in>set (seen @ [ord]). \<forall>r' d'. attempt lr t c j = Inr (Some r', d') \<longrightarrow>
          r' \<le> r \<and> (r' = r \<longrightarrow> b \<le> j)"
    using h(5) att le by simp
  then show ?thesis unfolding loop_invariant_some [OF Some] using h(1-4) by simp
qed

lemma loop_invariant_step:
  assumes inv: "loop_invariant lr t c seen st" and later: "\<forall>x\<in>set seen. x \<le> ord"
  shows "loop_invariant lr t c (seen @ [ord]) (try_order lr t c st ord)"
proof (cases "attempt lr t c ord")
  case (Inl e)
  then have "\<forall>r d. attempt lr t c ord \<noteq> Inr (Some r, d)" by simp
  then show ?thesis using inv Inl by (simp add: try_order_failed loop_invariant_skip)
next
  case (Inr p)
  obtain v d where p: "attempt lr t c ord = Inr (v, d)" using Inr by (cases p) simp
  show ?thesis
  proof (cases v)
    case None
    then have "\<forall>r d. attempt lr t c ord \<noteq> Inr (Some r, d)" using p by simp
    then show ?thesis using inv p None by (simp add: try_order_undefined loop_invariant_skip)
  next
    case (Some r2)
    then have att: "attempt lr t c ord = Inr (Some r2, d)" using p by simp
    show ?thesis
    proof (cases "exceeds r2 (best_r2 st)")
      case True
      then show ?thesis
        using inv att by (simp add: try_order_improves loop_invariant_replace)
    next
      case False
      then show ?thesis
        using inv att later by (simp add: try_order_keeps loop_invariant_keep)
    qed
  qed
qed

lemma loop_invariant_foldl:
  assumes "sorted os"
  shows "loop_invariant lr t c os (foldl (try_order lr t c) initial_best os)"
  using assms
proof (induction os rule: rev_induct)
  case Nil
  show ?case by (simp add: loop_invariant_initial)
next
  case (snoc x xs)
  then have "sorted xs" and "\<forall>y\<in>set xs. y \<le> x" by (simp_all add: sorted_append)
  then show ?case using snoc.IH by (simp add: loop_invariant_step)
qed

lemma loop_invariant_orders:
  "loop_invariant lr t c orders (foldl (try_order lr t c) initial_best orders)"
  by (rule loop_invariant_foldl) (simp add: orders_def)

lemma attempt_order0:
  "attempt lr t c 0 =
     (case lr t c of Inl e \<Rightarrow> Inl e
      | Inr (slope, intercept, r) \<Rightarrow>
          Inr (map_option (\<lambda>r. r\<^sup>2) r, (slope, intercept, c, ''[A] (M)'', - 1)))"
  by (simp add: attempt_def transform_data_def)


lemma attempt_r_squared_bounds:
  assumes "attempt linregress t c ord = Inr (Some r2, d)"
  shows "0 \<le> r2 \<and> r2 \<le> 1"
proof -
  from assms obtain t' y slope intercept r where
    "linregress t' y = Inr (slope, intercept, Some r)" and "r2 = r\<^sup>2"
    by (auto simp: attempt_def split: sum.splits)
  then show ?thesis using linregress_r_squared_bounds by blast
qed

lemma attempt_only_orders:
  "attempt lr t c ord = Inr (Some r2, d) \<Longrightarrow> ord \<in> {0, 1, 2}"
  by (auto simp: attempt_def transform_data_def split: if_splits)

lemma selector_returns:
  assumes "determine_best_order_with lr t c = Inr (b, s, dd)"
  shows "\<exists>r d. s = Score r \<and> dd = Some d \<and> attempt lr t c b = Inr (Some r, d) \<and>
           b \<in> {0, 1, 2} \<and>
           (\<forall>j\<in>{0, 1, 2}. \<forall>r' d'. attempt lr t c j = Inr (Some r', d') \<longrightarrow>
               r' \<le> r \<and> (r' = r \<longrightarrow> b \<le> j))"
proof -
  define st where "st = foldl (try_order lr t c) initial_best orders"
  have inv: "loop_invariant lr t c orders st"
    unfolding st_def by (rule loop_invariant_orders)
  from assms have b: "best_order st = Some b" and s: "s = best_r2 st" and dd: "dd = best_details st"
    by (auto simp: determine_best_order_with_def st_def Let_def split: option.splits)
  have "set orders = {0, 1, 2}" by (simp add: orders_def)
  then show ?thesis using inv unfolding loop_invariant_some [OF b] s dd by simp
qed

lemma selector_raises:
  assumes "determine_best_order_with lr t c = Inl e"
  shows "e = NoValidFitError \<and> (\<forall>j\<in>{0, 1, 2}. \<forall>r d. attempt lr t c j \<noteq> Inr (Some r, d))"
proof -
  define st where "st = foldl (try_order lr t c) initial_best orders"
  have inv: "loop_invariant lr t c orders st"
    unfolding st_def by (rule loop_invariant_orders)
  from assms have b: "best_order st = None" and e: "e = NoValidFitError"
    by (auto simp: determine_best_order_with_def st_def Let_def NoValidFitError_def
          split: option.splits)
  have "set orders = {0, 1, 2}" by (simp add: orders_def)
  then show ?thesis using inv e unfolding loop_invariant_none [OF b] by simp
qed

lemma selector_cases:
  "(\<exists>e. determine_best_order_with lr t c = Inl e) \<or>
   (\<exists>b s dd. determine_best_order_with lr t c = Inr (b, s, dd))"
  by (cases "determine_best_order_with lr t c") auto

lemma selector_first_maximal:
  assumes att: "attempt lr t c j = Inr (Some r, d)"
    and best: "\<forall>k\<in>{0, 1, 2}. \<forall>r' d'. attempt lr t c k = Inr (Some r', d') \<longrightarrow>
                 r' \<le> r \<and> (r' = r \<longrightarrow> j \<le> k)"
  shows "determine_best_order_with lr t c = Inr (j, Score r, Some d)"
proof -
  have j: "j \<in> {0, 1, 2}" using att by (rule attempt_only_orders)
  have "\<not> (\<exists>e. determine_best_order_with lr t c = Inl e)"
    using selector_raises [of lr t c] att j by blast
  then obtain b s dd where res: "determine_best_order_with lr t c = Inr (b, s, dd)"
    using selector_cases [of lr t c] by blast
  from selector_returns [OF res] obtain rb db where
    h: "s = Score rb" "dd = Some db" "attempt lr t c b = Inr (Some rb, db)" "b \<in> {0, 1, 2}"
       "\<forall>k\<in>{0, 1, 2}. \<forall>r' d'. attempt lr t c k = Inr (Some r', d') \<longrightarrow>
           r' \<le> rb \<and> (r' = rb \<longrightarrow> b \<le> k)"
    by blast
  have "r \<le> rb \<and> (r = rb \<longrightarrow> b \<le> j)" using h(5) j att by blast
  moreover have "rb \<le> r \<and> (rb = r \<longrightarrow> j \<le> b)" using best h(3,4) by blast
  ultimately have "b = j" by auto
  then show ?thesis using res h(1,2,3) att by simp
qed

section \<open>Further auxiliary facts\<close>




lemma linregress_values:
  assumes "length t = length y" and "\<not> all_identical t" and "\<not> all_identical y"
    and "sum_products t y = sp" and "sum_squares t = st" and "sum_squares y = sy"
    and "mean t = mt" and "mean y = my"
  shows "\<exists>r. linregress t y = Inr (sp / st, my - sp / st * mt, Some r)
             \<and> r\<^sup>2 = sp\<^sup>2 / (st * sy)"
  using linregress_scored [OF assms(1-3)] assms(4-8) by simp

lemma transform_data_shape:
  assumes "transform_data time concentration order = Inr (t, y, ylabel, sign_factor)"
  shows "t = time \<and> length y = length concentration"
  using assms by (auto simp: transform_data_def split: if_splits)

lemma sum_list_index: "sum_list xs = (\<Sum>i<length xs. xs ! i)" for xs :: "real list"
  by (simp add: sum_list_sum_nth atLeast0LessThan)

lemma mean_spec: "mean xs = spec_mean xs"
  by (simp add: mean_def spec_mean_def sum_list_index)

lemma sum_products_spec:
  assumes "length t = length y"
  shows "sum_products t y = (\<Sum>i<length t. (t ! i - spec_mean t) * (y ! i - spec_mean y))"
proof -
  have "sum_products t y
          = (\<Sum>i<length t. map2 (*) (deviations t) (deviations y) ! i)"
    using assms by (simp add: sum_products_def sum_list_index deviations_def)
  also have "\<dots> = (\<Sum>i<length t. (t ! i - spec_mean t) * (y ! i - spec_mean y))"
    using assms by (intro sum.cong refl) (simp add: deviations_def mean_spec)
  finally show ?thesis .
qed

lemma sum_squares_spec: "sum_squares t = (\<Sum>i<length t. (t ! i - spec_mean t)\<^sup>2)"
proof -
  have "sum_squares t = (\<Sum>i<length t. map (\<lambda>d. d\<^sup>2) (deviations t) ! i)"
    by (simp add: sum_squares_def sum_list_index deviations_def)
  also have "\<dots> = (\<Sum>i<length t. (t ! i - spec_mean t)\<^sup>2)"
    by (intro sum.cong refl) (simp add: deviations_def mean_spec)
  finally show ?thesis .
qed

lemma zero_order_example_attempt:
  "attempt linregress [0, 10, 20, 30] [1, 0.8, 0.6, 0.4] 0
     = Inr (Some 1, (- 0.02, 1, [1, 0.8, 0.6, 0.4], ''[A] (M)'', - 1))"
proof -
  let ?t = "[0, 10, 20, 30] :: real list" and ?y = "[1, 0.8, 0.6, 0.4] :: real list"
  have L: "ln (2::real) \<noteq> 0" by simp
  have len: "length ?t = length ?y" by simp
  have vt: "\<not> all_identical ?t" and vy: "\<not> all_identical ?y"
    by (simp_all add: all_identical_def)
  have mt: "mean ?t = 15" and my: "mean ?y = 7 / 10" by (simp_all add: mean_def)
  have sp: "sum_products ?t ?y = - 10"
    by (simp add: sum_products_def deviations_def mt my mean_def)
  have st: "sum_squares ?t = 500"
    by (simp add: sum_squares_def deviations_def mt mean_def power2_eq_square)
  have sy: "sum_squares ?y = 1 / 5"
    by (simp add: sum_squares_def deviations_def my mean_def power2_eq_square)
  from linregress_values [OF len vt vy sp st sy mt my] obtain r where
    lr: "linregress ?t ?y = Inr ((- 10) / (500), (7 / 10) - (- 10) / (500) * (15), Some r)"
    and r2: "r\<^sup>2 = (- 10)\<^sup>2 / ((500) * (1 / 5))"
    by blast
  have "r\<^sup>2 = 1" unfolding r2 using L by (simp add: power2_eq_square)
  moreover have "linregress ?t ?y = Inr (- 0.02, 1, Some r)"
    unfolding lr by simp
  ultimately show ?thesis by (simp add: attempt_order0)
qed

lemma halving_attempt0:
  "attempt linregress [0, 1, 2] [1, 1 / 2, 1 / 4] 0
     = Inr (Some (27 / 28), (- (3 / 8), 23 / 24, [1, 1 / 2, 1 / 4], ''[A] (M)'', - 1))"
proof -
  let ?t = "[0, 1, 2] :: real list" and ?y = "[1, 1 / 2, 1 / 4] :: real list"
  have L: "ln (2::real) \<noteq> 0" by simp
  have len: "length ?t = length ?y" by simp
  have vt: "\<not> all_identical ?t" and vy: "\<not> all_identical ?y"
    by (simp_all add: all_identical_def)
  have mt: "mean ?t = 1" and my: "mean ?y = 7 / 12" by (simp_all add: mean_def)
  have sp: "sum_products ?t ?y = - (3 / 4)"
    by (simp add: sum_products_def deviations_def mt my mean_def)
  have st: "sum_squares ?t = 2"
    by (simp add: sum_squares_def deviations_def mt mean_def power2_eq_square)
  have sy: "sum_squares ?y = 7 / 24"
    by (simp add: sum_squares_def deviations_def my mean_def power2_eq_square)
  from linregress_values [OF len vt vy sp st sy mt my] obtain r where
    lr: "linregress ?t ?y = Inr ((- (3 / 4)) / (2), (7 / 12) - (- (3 / 4)) / (2) * (1), Some r)"
    and r2: "r\<^sup>2 = (- (3 / 4))\<^sup>2 / ((2) * (7 / 24))"
    by blast
  have "r\<^sup>2 = (27 / 28)" unfolding r2 using L by (simp add: power2_eq_square)
  moreover have "linregress ?t ?y = Inr (- (3 / 8), 23 / 24, Some r)"
    unfolding lr by simp
  ultimately show ?thesis by (simp add: attempt_order0)
qed

lemma halving_logs: "map ln [1, 1 / 2, 1 / 4 :: real] = [0, - ln 2, - (2 * ln 2)]"
proof -
  have "ln (4::real) = ln (2\<^sup>2)" by simp
  also have "\<dots> = 2 * ln 2" by (simp only: ln_realpow)
  finally have "ln (4::real) = 2 * ln 2" .
  then show ?thesis by (simp add: ln_div)
qed

lemma halving_attempt1:
  "attempt linregress [0, 1, 2] [1, 1 / 2, 1 / 4] 1
     = Inr (Some 1, (- ln 2, 0, [0, - ln 2, - (2 * ln 2)], ''ln[A]'', - 1))"
proof -
  let ?t = "[0, 1, 2] :: real list" and ?y = "[0, - ln 2, - (2 * ln 2)] :: real list"
  have L: "ln (2::real) \<noteq> 0" by simp
  have len: "length ?t = length ?y" by simp
  have vt: "\<not> all_identical ?t" and vy: "\<not> all_identical ?y"
    by (simp_all add: all_identical_def)
  have mt: "mean ?t = 1" and my: "mean ?y = - ln 2" by (simp_all add: mean_def)
  have sp: "sum_products ?t ?y = - (2 * ln 2)"
    by (simp add: sum_products_def deviations_def mt my mean_def)
  have st: "sum_squares ?t = 2"
    by (simp add: sum_squares_def deviations_def mt mean_def power2_eq_square)
  have sy: "sum_squares ?y = 2 * (ln 2)\<^sup>2"
    by (simp add: sum_squares_def deviations_def my mean_def power2_eq_square)
  from linregress_values [OF len vt vy sp st sy mt my] obtain r where
    lr: "linregress ?t ?y = Inr ((- (2 * ln 2)) / (2), (- ln 2) - (- (2 * ln 2)) / (2) * (1), Some r)"
    and r2: "r\<^sup>2 = (- (2 * ln 2))\<^sup>2 / ((2) * (2 * (ln 2)\<^sup>2))"
    by blast
  have "r\<^sup>2 = 1" unfolding r2 using L by (simp add: power2_eq_square)
  moreover have "linregress ?t ?y = Inr (- ln 2, 0, Some r)"
    unfolding lr by simp
  ultimately show ?thesis by (simp add: attempt_def transform_data_def halving_logs [simplified])
qed

lemma halving_attempt2:
  "attempt linregress [0, 1, 2] [1, 1 / 2, 1 / 4] 2
     = Inr (Some (27 / 28), (3 / 2, 5 / 6, [1, 2, 4], ''1/[A] (1/M)'', 1))"
proof -
  let ?t = "[0, 1, 2] :: real list" and ?y = "[1, 2, 4] :: real list"
  have L: "ln (2::real) \<noteq> 0" by simp
  have len: "length ?t = length ?y" by simp
  have vt: "\<not> all_identical ?t" and vy: "\<not> all_identical ?y"
    by (simp_all add: all_identical_def)
  have mt: "mean ?t = 1" and my: "mean ?y = 7 / 3" by (simp_all add: mean_def)
  have sp: "sum_products ?t ?y = 3"
    by (simp add: sum_products_def deviations_def mt my mean_def)
  have st: "sum_squares ?t = 2"
    by (simp add: sum_squares_def deviations_def mt mean_def power2_eq_square)
  have sy: "sum_squares ?y = 14 / 3"
    by (simp add: sum_squares_def deviations_def my mean_def power2_eq_square)
  from linregress_values [OF len vt vy sp st sy mt my] obtain r where
    lr: "linregress ?t ?y = Inr ((3) / (2), (7 / 3) - (3) / (2) * (1), Some r)"
    and r2: "r\<^sup>2 = (3)\<^sup>2 / ((2) * (14 / 3))"
    by blast
  have "r\<^sup>2 = (27 / 28)" unfolding r2 using L by (simp add: power2_eq_square)
  moreover have "linregress ?t ?y = Inr (3 / 2, 5 / 6, Some r)"
    unfolding lr by simp
  ultimately show ?thesis by (simp add: attempt_def transform_data_def)
qed

lemma two_point_attempt0:
  "attempt linregress [0, 1] [1, 2] 0
     = Inr (Some 1, (1, 1, [1, 2], ''[A] (M)'', - 1))"
proof -
  let ?t = "[0, 1] :: real list" and ?y = "[1, 2] :: real list"
  have L: "ln (2::real) \<noteq> 0" by simp
  have len: "length ?t = length ?y" by simp
  have vt: "\<not> all_identical ?t" and vy: "\<not> all_identical ?y"
    by (simp_all add: all_identical_def)
  have mt: "mean ?t = 1 / 2" and my: "mean ?y = 3 / 2" by (simp_all add: mean_def)
  have sp: "sum_products ?t ?y = 1 / 2"
    by (simp add: sum_products_def deviations_def mt my mean_def)
  have st: "sum_squares ?t = 1 / 2"
    by (simp add: sum_squares_def deviations_def mt mean_def power2_eq_square)
  have sy: "sum_squares ?y = 1 / 2"
    by (simp add: sum_squares_def deviations_def my mean_def power2_eq_square)
  from linregress_values [OF len vt vy sp st sy mt my] obtain r where
    lr: "linregress ?t ?y = Inr ((1 / 2) / (1 / 2), (3 / 2) - (1 / 2) / (1 / 2) * (1 / 2), Some r)"
    and r2: "r\<^sup>2 = (1 / 2)\<^sup>2 / ((1 / 2) * (1 / 2))"
    by blast
  have "r\<^sup>2 = 1" unfolding r2 using L by (simp add: power2_eq_square)
  moreover have "linregress ?t ?y = Inr (1, 1, Some r)"
    unfolding lr by simp
  ultimately show ?thesis by (simp add: attempt_order0)
qed

lemma two_point_attempt1:
  "attempt linregress [0, 1] [1, 2] 1
     = Inr (Some 1, (ln 2, 0, [0, ln 2], ''ln[A]'', - 1))"
proof -
  let ?t = "[0, 1] :: real list" and ?y = "[0, ln 2] :: real list"
  have L: "ln (2::real) \<noteq> 0" by simp
  have len: "length ?t = length ?y" by simp
  have vt: "\<not> all_identical ?t" and vy: "\<not> all_identical ?y"
    by (simp_all add: all_identical_def)
  have mt: "mean ?t = 1 / 2" and my: "mean ?y = ln 2 / 2" by (simp_all add: mean_def)
  have sp: "sum_products ?t ?y = ln 2 / 2"
    by (simp add: sum_products_def deviations_def mt my mean_def)
  have st: "sum_squares ?t = 1 / 2"
    by (simp add: sum_squares_def deviations_def mt mean_def power2_eq_square)
  have sy: "sum_squares ?y = (ln 2)\<^sup>2 / 2"
    by (simp add: sum_squares_def deviations_def my mean_def power2_eq_square)
  from linregress_values [OF len vt vy sp st sy mt my] obtain r where
    lr: "linregress ?t ?y = Inr ((ln 2 / 2) / (1 / 2), (ln 2 / 2) - (ln 2 / 2) / (1 / 2) * (1 / 2), Some r)"
    and r2: "r\<^sup>2 = (ln 2 / 2)\<^sup>2 / ((1 / 2) * ((ln 2)\<^sup>2 / 2))"
    by blast
  have "r\<^sup>2 = 1" unfolding r2 using L by (simp add: power2_eq_square)
  moreover have "linregress ?t ?y = Inr (ln 2, 0, Some r)"
    unfolding lr by simp
  ultimately show ?thesis by (simp add: attempt_def transform_data_def)
qed

lemma two_point_attempt2:
  "attempt linregress [0, 1] [1, 2] 2
     = Inr (Some 1, (- (1 / 2), 1, [1, 1 / 2], ''1/[A] (1/M)'', 1))"
proof -
  let ?t = "[0, 1] :: real list" and ?y = "[1, 1 / 2] :: real list"
  have L: "ln (2::real) \<noteq> 0" by simp
  have len: "length ?t = length ?y" by simp
  have vt: "\<not> all_identical ?t" and vy: "\<not> all_identical ?y"
    by (simp_all add: all_identical_def)
  have mt: "mean ?t = 1 / 2" and my: "mean ?y = 3 / 4" by (simp_all add: mean_def)
  have sp: "sum_products ?t ?y = - (1 / 4)"
    by (simp add: sum_products_def deviations_def mt my mean_def)
  have st: "sum_squares ?t = 1 / 2"
    by (simp add: sum_squares_def deviations_def mt mean_def power2_eq_square)
  have sy: "sum_squares ?y = 1 / 8"
    by (simp add: sum_squares_def deviations_def my mean_def power2_eq_square)
  from linregress_values [OF len vt vy sp st sy mt my] obtain r where
    lr: "linregress ?t ?y = Inr ((- (1 / 4)) / (1 / 2), (3 / 4) - (- (1 / 4)) / (1 / 2) * (1 / 2), Some r)"
    and r2: "r\<^sup>2 = (- (1 / 4))\<^sup>2 / ((1 / 2) * (1 / 8))"
    by blast
  have "r\<^sup>2 = 1" unfolding r2 using L by (simp add: power2_eq_square)
  moreover have "linregress ?t ?y = Inr (- (1 / 2), 1, Some r)"
    unfolding lr by simp
  ultimately show ?thesis by (simp add: attempt_def transform_data_def)
qed

lemma two_point_selection:
  "determine_best_order [0, 1] [1, 2] = Inr (0, Score 1, Some (1, 1, [1, 2], ''[A] (M)'', - 1))"
proof -
  have "\<forall>k\<in>{0, 1, 2}. \<forall>r' d'. attempt linregress [0, 1] [1, 2] k = Inr (Some r', d') \<longrightarrow>
          r' \<le> 1 \<and> (r' = 1 \<longrightarrow> 0 \<le> k)"
    using attempt_r_squared_bounds by auto
  with two_point_attempt0 show ?thesis
    unfolding determine_best_order_def by (rule selector_first_maximal)
qed

section \<open>Properties of the transformer\<close>

text \<open>
  Claim C7.  For order 0 the transformer is the identity on the concentration values: it
  returns the concentration series unchanged as \<open>y\<close>, with axis label \<open>[A] (M)\<close> and sign
  factor \<open>-1\<close>, and it never raises, whatever the signs of the concentrations.
\<close>

theorem transform_order0_identity:
  "transform_data time concentration 0 = Inr (time, concentration, ''[A] (M)'', - 1)"
  by (simp add: transform_data_def)

text \<open>
  Claim C8.  For every order outside \<open>{0, 1, 2}\<close> the transformer raises the error the
  specification calls \<open>InvalidOrderError\<close>, for any time and concentration series.
\<close>

theorem transform_invalid_order:
  "order \<notin> {0, 1, 2} \<Longrightarrow> transform_data time concentration order = Inl InvalidOrderError"
  by (simp add: transform_data_def InvalidOrderError_def)

theorem transform_invalid_order_witness:
  "(3::int) \<notin> {0, 1, 2} \<and> transform_data [0, 1] [1, 2] 3 = Inl InvalidOrderError"
  using transform_invalid_order [of 3 "[0, 1]" "[1, 2]"] by simp

text \<open>
  Claim C4.  For order 1 or 2 the transformer raises exactly when the concentration series
  contains a value less than or equal to zero, and what it raises is the error the
  specification calls \<open>InvalidInputError\<close>; when it returns, \<open>y\<close> is the elementwise natural
  logarithm of the concentrations for order 1 and their elementwise reciprocal for order 2.
\<close>

theorem transform_positive_guard:
  assumes "order = 1 \<or> order = 2"
  shows "((\<exists>e. transform_data time concentration order = Inl e) = (\<exists>c\<in>set concentration. c \<le> 0))
       \<and> (\<forall>e. transform_data time concentration order = Inl e \<longrightarrow> is_InvalidInputError e)
       \<and> (\<forall>t y ylabel sign_factor.
            transform_data time concentration order = Inr (t, y, ylabel, sign_factor) \<longrightarrow>
              y = (if order = 1 then map ln concentration else map (\<lambda>c. 1 / c) concentration))"
  using assms
  by (auto simp: transform_data_def list_ex_iff is_InvalidInputError_def
        InvalidInputError_ln_def InvalidInputError_recip_def)

theorem transform_positive_guard_witness:
  "transform_data [0, 1] [1, 0] 1 = Inl InvalidInputError_ln
   \<and> is_InvalidInputError InvalidInputError_ln
   \<and> transform_data [0, 1] [1, 2] 2 = Inr ([0, 1], [1, 1 / 2], ''1/[A] (1/M)'', 1)
   \<and> [1, 1 / 2] = map (\<lambda>c. 1 / c) [1, 2 :: real]"
proof -
  have raised: "transform_data [0, 1] [1, 0] 1 = Inl InvalidInputError_ln"
    by (simp add: transform_data_def InvalidInputError_ln_def)
  have returned: "transform_data [0, 1] [1, 2] 2 = Inr ([0, 1], [1, 1 / 2], ''1/[A] (1/M)'', 1)"
    by (simp add: transform_data_def)
  have "is_InvalidInputError InvalidInputError_ln"
    using transform_positive_guard [of 1 "[0, 1]" "[1, 0]"] raised by simp
  moreover have "[1, 1 / 2] = map (\<lambda>c. 1 / c) [1, 2 :: real]"
    using transform_positive_guard [of 2 "[0, 1]" "[1, 2]"] returned by simp
  ultimately show ?thesis using raised returned by simp
qed

section \<open>Properties of the regression\<close>

text \<open>
  Claim C6.  For every order whose transform succeeds, on series of equal length whose time
  values are not all identical, the regression succeeds and its slope and intercept are the
  closed form of ordinary least squares: the sum of \<open>(t\<^sub>i - mean t) * (y\<^sub>i - mean y)\<close> over
  the sum of \<open>(t\<^sub>i - mean t)\<^sup>2\<close>, which is not zero, and \<open>mean y - slope * mean t\<close>.  These are
  the slope and intercept the selector records for that order.
\<close>

theorem regression_is_least_squares:
  assumes "transform_data time concentration order = Inr (t, y, ylabel, sign_factor)"
    and "length concentration = length time"
    and "a \<in> set time" and "b \<in> set time" and "a \<noteq> b"
  shows "(\<Sum>i<length t. (t ! i - spec_mean t)\<^sup>2) \<noteq> 0
       \<and> (\<exists>r. linregress t y = Inr (spec_slope t y, spec_intercept t y, r)
              \<and> attempt linregress time concentration order
                  = Inr (map_option (\<lambda>r. r\<^sup>2) r,
                         (spec_slope t y, spec_intercept t y, y, ylabel, sign_factor)))"
proof -
  have t: "t = time" and len: "length t = length y"
    using transform_data_shape [OF assms(1)] assms(2) by simp_all
  have ne: "t \<noteq> []" using assms(3) t by auto
  have spread: "\<not> all_identical t"
    using assms(3-5) unfolding t by (rule distinct_values_not_identical)
  have denom: "(\<Sum>i<length t. (t ! i - spec_mean t)\<^sup>2) \<noteq> 0"
    using sum_squares_pos [OF spread] by (simp add: sum_squares_spec)
  have slope: "sum_products t y / sum_squares t = spec_slope t y"
    by (simp add: spec_slope_def sum_products_spec [OF len] sum_squares_spec)
  obtain r where lr: "linregress t y
      = Inr (sum_products t y / sum_squares t,
             mean y - sum_products t y / sum_squares t * mean t, r)"
    using linregress_success [OF ne len spread] by blast
  have lr': "linregress t y = Inr (spec_slope t y, spec_intercept t y, r)"
    using lr by (simp add: slope spec_intercept_def mean_spec)
  have "attempt linregress time concentration order
          = Inr (map_option (\<lambda>r. r\<^sup>2) r,
                 (spec_slope t y, spec_intercept t y, y, ylabel, sign_factor))"
    using assms(1) lr' by (simp add: attempt_def)
  then show ?thesis using denom lr' by blast
qed

theorem regression_is_least_squares_witness:
  "transform_data [0, 1] [1, 3] 0 = Inr ([0, 1], [1, 3], ''[A] (M)'', - 1)
   \<and> length [1, 3 :: real] = length [0, 1 :: real]
   \<and> (0::real) \<in> set [0, 1] \<and> (1::real) \<in> set [0, 1] \<and> (0::real) \<noteq> 1
   \<and> (\<exists>r. linregress [0, 1] [1, 3] = Inr (2, 1, r))"
proof -
  have tr: "transform_data [0, 1] [1, 3] 0 = Inr ([0, 1], [1, 3], ''[A] (M)'', - 1)"
    by (simp add: transform_data_def)
  have sl: "spec_slope [0, 1] [1, 3] = 2"
    by (simp add: spec_slope_def spec_mean_def power2_eq_square)
  have ic: "spec_intercept [0, 1] [1, 3] = 1"
    by (simp add: spec_intercept_def sl) (simp add: spec_mean_def)
  have "\<exists>r. linregress [0, 1] [1, 3] = Inr (spec_slope [0, 1] [1, 3], spec_intercept [0, 1] [1, 3], r)"
    using regression_is_least_squares [OF tr, of 0 1] by auto
  then show ?thesis using tr by (simp add: sl ic)
qed

text \<open>
  Claim C5.  On series of equal length, at least 2, whose time values are all identical, the
  regression fails with \<open>DegenerateFitError\<close> whatever response it is given, so no order
  produces a fit (order 0 fails in the regression; orders 1 and 2 fail there or already in
  the transform), and the selector raises the error the specification calls
  \<open>NoValidFitError\<close>.
\<close>

theorem identical_times_no_fit:
  assumes "length concentration = length time" and "2 \<le> length time"
    and "\<forall>x\<in>set time. x = v"
  shows "(\<forall>y. length y = length time \<longrightarrow> linregress time y = Inl DegenerateFitError)
       \<and> attempt linregress time concentration 0 = Inl DegenerateFitError
       \<and> (\<forall>j\<in>{0, 1, 2}. \<exists>e. attempt linregress time concentration j = Inl e
              \<and> (e = DegenerateFitError \<or> is_InvalidInputError e))
       \<and> determine_best_order time concentration = Inl NoValidFitError"
proof -
  have ne: "time \<noteq> []" using assms(2) by auto
  have ident: "all_identical time" using assms(3) by (rule constant_series_identical)
  have reg: "\<forall>y. length y = length time \<longrightarrow> linregress time y = Inl DegenerateFitError"
    using ne ident by (simp add: linregress_degenerate)
  have a0: "attempt linregress time concentration 0 = Inl DegenerateFitError"
    using reg assms(1) by (simp add: attempt_order0)
  have each: "\<forall>j\<in>{0, 1, 2}. \<exists>e. attempt linregress time concentration j = Inl e
                \<and> (e = DegenerateFitError \<or> is_InvalidInputError e)"
    using reg assms(1) a0
    by (auto simp: attempt_def transform_data_def is_InvalidInputError_def
          InvalidInputError_ln_def InvalidInputError_recip_def)
  have "\<not> (\<exists>b s dd. determine_best_order_with linregress time concentration = Inr (b, s, dd))"
  proof
    assume "\<exists>b s dd. determine_best_order_with linregress time concentration = Inr (b, s, dd)"
    then obtain b s dd where "determine_best_order_with linregress time concentration = Inr (b, s, dd)"
      by blast
    from selector_returns [OF this] obtain r d where
      "attempt linregress time concentration b = Inr (Some r, d)" "b \<in> {0, 1, 2}" by blast
    then show False using each by auto
  qed
  then obtain e where "determine_best_order_with linregress time concentration = Inl e"
    using selector_cases [of linregress time concentration] by blast
  then have "determine_best_order time concentration = Inl NoValidFitError"
    using selector_raises [of linregress time concentration e] by (simp add: determine_best_order_def)
  then show ?thesis using reg a0 each by blast
qed

theorem identical_times_no_fit_witness:
  "length [1, 2, 3 :: real] = length [5, 5, 5 :: real] \<and> 2 \<le> length [5, 5, 5 :: real]
   \<and> set [5, 5, 5 :: real] = {5}
   \<and> linregress [5, 5, 5] [1, 2, 3] = Inl DegenerateFitError
   \<and> linregress [5, 5, 5] [ln 1, ln 2, ln 3] = Inl DegenerateFitError
   \<and> linregress [5, 5, 5] [1, 1 / 2, 1 / 3] = Inl DegenerateFitError
   \<and> determine_best_order [5, 5, 5] [1, 2, 3] = Inl NoValidFitError"
  using identical_times_no_fit [of "[1, 2, 3]" "[5, 5, 5]" 5] by simp

section \<open>Properties of the selector\<close>

text \<open>
  Claim C1.  For series of equal length, at least 2, the selector either returns an order
  in \<open>{0, 1, 2}\<close> with a score \<open>r\<^sup>2\<close> such that \<open>0 \<le> r\<^sup>2 \<le> 1\<close>, or raises the error the
  specification calls \<open>NoValidFitError\<close>; nothing else can happen.
\<close>

theorem selection_range:
  assumes "length concentration = length time" and "2 \<le> length time"
  shows "(\<exists>b r d. determine_best_order time concentration = Inr (b, Score r, Some d)
            \<and> b \<in> {0, 1, 2} \<and> 0 \<le> r \<and> r \<le> 1)
       \<or> determine_best_order time concentration = Inl NoValidFitError"
proof (cases "determine_best_order time concentration")
  case (Inl e)
  then show ?thesis using selector_raises [of linregress time concentration e]
    by (simp add: determine_best_order_def)
next
  case (Inr res)
  obtain b s dd where res: "res = (b, s, dd)" by (cases res)
  have "determine_best_order_with linregress time concentration = Inr (b, s, dd)"
    using Inr res by (simp add: determine_best_order_def)
  from selector_returns [OF this] obtain r d where
    h: "s = Score r" "dd = Some d" "attempt linregress time concentration b = Inr (Some r, d)"
       "b \<in> {0, 1, 2}"
    by blast
  have "0 \<le> r \<and> r \<le> 1" using h(3) by (rule attempt_r_squared_bounds)
  then show ?thesis using Inr res h by blast
qed

theorem selection_range_witness:
  "length [1, 2 :: real] = length [0, 1 :: real] \<and> 2 \<le> length [0, 1 :: real]
   \<and> determine_best_order [0, 1] [1, 2]
        = Inr (0, Score 1, Some (1, 1, [1, 2], ''[A] (M)'', - 1))
   \<and> (0::int) \<in> {0, 1, 2} \<and> (0::real) \<le> 1 \<and> (1::real) \<le> 1"
  using selection_range [of "[1, 2]" "[0, 1]"] two_point_selection by simp

text \<open>
  Claim C2.  For the times \<open>0, 10, 20, 30\<close> and the concentrations \<open>1.0, 0.8, 0.6, 0.4\<close>
  the selector returns order 0 with \<open>r\<^sup>2 = 1\<close> and slope \<open>-0.02\<close>, and the rate constant
  \<open>sign_factor * slope\<close> is \<open>0.02\<close>.
\<close>

theorem zero_order_example:
  "determine_best_order [0, 10, 20, 30] [1, 0.8, 0.6, 0.4]
     = Inr (0, Score 1, Some (- 0.02, 1, [1, 0.8, 0.6, 0.4], ''[A] (M)'', - 1))
   \<and> rate_constant (- 1) (- 0.02) = 0.02"
proof -
  have "\<forall>k\<in>{0, 1, 2}. \<forall>r' d'.
          attempt linregress [0, 10, 20, 30] [1, 0.8, 0.6, 0.4] k = Inr (Some r', d') \<longrightarrow>
            r' \<le> 1 \<and> (r' = 1 \<longrightarrow> 0 \<le> k)"
    using attempt_r_squared_bounds by auto
  with zero_order_example_attempt
  have "determine_best_order_with linregress [0, 10, 20, 30] [1, 0.8, 0.6, 0.4]
          = Inr (0, Score 1, Some (- 0.02, 1, [1, 0.8, 0.6, 0.4], ''[A] (M)'', - 1))"
    by (rule selector_first_maximal)
  then show ?thesis by (simp add: determine_best_order_def rate_constant_def)
qed

text \<open>
  Claim C3, as amended.  Whatever the regression, the order the selector returns has the
  highest score among the orders that produced a fit, and when two or more orders tie at
  this highest score it is the lowest-numbered of them: the comparison with the best score
  so far is strict, so a later order with an equal score never replaces an earlier one.
\<close>

theorem tie_keeps_earliest_order:
  assumes "determine_best_order_with lr time concentration = Inr (b, s, dd)"
  shows "\<exists>r d. s = Score r \<and> dd = Some d \<and> attempt lr time concentration b = Inr (Some r, d)
           \<and> (\<forall>j\<in>{0, 1, 2}. \<forall>r' d'. attempt lr time concentration j = Inr (Some r', d') \<longrightarrow>
                 r' \<le> r \<and> (r' = r \<longrightarrow> b \<le> j))"
  using selector_returns [OF assms] by blast

theorem tie_keeps_earliest_order_witness:
  "determine_best_order_with linregress [0, 1] [1, 2]
     = Inr (0, Score 1, Some (1, 1, [1, 2], ''[A] (M)'', - 1))
   \<and> attempt linregress [0, 1] [1, 2] 0 = Inr (Some 1, (1, 1, [1, 2], ''[A] (M)'', - 1))
   \<and> attempt linregress [0, 1] [1, 2] 1 = Inr (Some 1, (ln 2, 0, [0, ln 2], ''ln[A]'', - 1))
   \<and> attempt linregress [0, 1] [1, 2] 2
     = Inr (Some 1, (- (1 / 2), 1, [1, 1 / 2], ''1/[A] (1/M)'', 1))"
proof -
  have sel: "determine_best_order_with linregress [0, 1] [1, 2]
               = Inr (0, Score 1, Some (1, 1, [1, 2], ''[A] (M)'', - 1))"
    using two_point_selection by (simp add: determine_best_order_def)
  have "attempt linregress [0, 1] [1, 2] 0 = Inr (Some 1, (1, 1, [1, 2], ''[A] (M)'', - 1))"
    using tie_keeps_earliest_order [OF sel] by simp
  then show ?thesis using sel two_point_attempt1 two_point_attempt2 by simp
qed

text \<open>
  Claim C3 as stated speaks of any two orders with equal scores.  A tie below the highest
  score does not decide the selection: for a concentration that halves at every step,
  orders 0 and 2 both score \<open>27/28\<close>, order 1 scores \<open>1\<close>, and the selector returns order 1,
  which is not the lowest-numbered of the two tied orders.
\<close>

theorem tie_below_maximum_counterexample:
  "attempt linregress [0, 1, 2] [1, 1 / 2, 1 / 4] 0
     = Inr (Some (27 / 28), (- (3 / 8), 23 / 24, [1, 1 / 2, 1 / 4], ''[A] (M)'', - 1))
   \<and> attempt linregress [0, 1, 2] [1, 1 / 2, 1 / 4] 2
     = Inr (Some (27 / 28), (3 / 2, 5 / 6, [1, 2, 4], ''1/[A] (1/M)'', 1))
   \<and> determine_best_order [0, 1, 2] [1, 1 / 2, 1 / 4]
     = Inr (1, Score 1, Some (- ln 2, 0, [0, - ln 2, - (2 * ln 2)], ''ln[A]'', - 1))"
proof -
  have "\<forall>k\<in>{0, 1, 2}. \<forall>r' d'.
          attempt linregress [0, 1, 2] [1, 1 / 2, 1 / 4] k = Inr (Some r', d') \<longrightarrow>
            r' \<le> 1 \<and> (r' = 1 \<longrightarrow> 1 \<le> k)"
    using attempt_r_squared_bounds halving_attempt0 by auto
  with halving_attempt1
  have "determine_best_order_with linregress [0, 1, 2] [1, 1 / 2, 1 / 4]
          = Inr (1, Score 1, Some (- ln 2, 0, [0, - ln 2, - (2 * ln 2)], ''ln[A]'', - 1))"
    by (rule selector_first_maximal)
  then show ?thesis using halving_attempt0 halving_attempt2
    by (simp add: determine_best_order_def)
qed







end
